theory Spec2Isabelle
  imports Main "HOL-Library.Signed_Division"
begin

section \<open>MPAGSCipher: the chunk splitter and the concurrent transform pipeline\<close>

text \<open>
  The development embeds \<^verbatim>\<open>Cipher::splitString\<close> (Cipher.hpp) and the part of
  \<^verbatim>\<open>main\<close> that launches the workers, polls them and recombines the text.

  Conventions of the embedding:
  \<^item> C++ \<^verbatim>\<open>int\<close> has 32 bits. A value of type \<^verbatim>\<open>int\<close> is an \<open>int\<close> between
    \<open>- 2^31\<close> and \<open>2^31 - 1\<close>; \<^verbatim>\<open>int str_length = str.size()\<close> wraps the size
    into that range, and a sum or quotient that leaves it, undefined in C++, is the
    error \<open>IntOverflow\<close>. The parameter \<open>n\<close> is taken within the range.
  \<^item> \<^verbatim>\<open>/\<close> and \<^verbatim>\<open>%\<close> truncate towards zero (\<open>sdiv\<close>, \<open>smod\<close>); a zero divisor,
    undefined in C++, is the error \<open>DivByZero\<close>.
  \<^item> An \<^verbatim>\<open>int\<close> passed where \<^verbatim>\<open>std::string::substr\<close> expects a
    \<^verbatim>\<open>size_t\<close> is converted modulo \<open>2^64\<close>.
  \<^item> \<^verbatim>\<open>substr\<close> throws \<^verbatim>\<open>std::out_of_range\<close> when the position is beyond the
    size: the error \<open>OutOfRange\<close>. An unchecked \<^verbatim>\<open>operator[]\<close> beyond the size
    of a vector, undefined in C++, is the error \<open>BadIndex\<close>.
  \<^item> A loop that may run forever takes fuel: \<open>None\<close> means the fuel ran out
    before the loop was left.
\<close>

subsection \<open>Data\<close>

text \<open>
  Modelled from the spec: the enumeration \<^verbatim>\<open>CipherMode\<close>, whose header is missing
  (section 3); main and the tests name its two values.
\<close>

datatype CipherMode = Encrypt | Decrypt

datatype error = DivByZero | IntOverflow | OutOfRange | BadIndex

type_synonym applyCipher_fn = "string \<Rightarrow> CipherMode \<Rightarrow> string"

subsection \<open>Machine integers\<close>

definition in_int :: "int \<Rightarrow> bool" where
  "in_int x \<longleftrightarrow> - (2 ^ 31) \<le> x \<and> x < 2 ^ 31"

definition to_int :: "nat \<Rightarrow> int" where
  "to_int x = (int x + 2 ^ 31) mod 2 ^ 32 - 2 ^ 31"

subsection \<open>\<^verbatim>\<open>std::string::substr\<close>\<close>

definition to_size_t :: "int \<Rightarrow> nat" where
  "to_size_t x = nat (x mod 2 ^ 64)"

definition substr :: "string \<Rightarrow> int \<Rightarrow> int \<Rightarrow> error + string" where
  "substr s pos count =
     (if length s < to_size_t pos then Inl OutOfRange
      else Inr (take (to_size_t count) (drop (to_size_t pos) s)))"

subsection \<open>\<^verbatim>\<open>Cipher::splitString\<close>\<close>

text \<open>
  The body of the \<^verbatim>\<open>for\<close> loop: which \<^verbatim>\<open>substr\<close> call is pushed at index \<open>i\<close>.
  Every path through the body computes \<^verbatim>\<open>i + part_size\<close> before anything else
  (in the test for the end of the string or as the argument of \<^verbatim>\<open>substr\<close>), so the
  loop checks that sum once, before the body. \<^verbatim>\<open>str_length - 1\<close> cannot overflow:
  the loop is entered with \<open>0 < str_length\<close> only.
\<close>

definition splitBody :: "string \<Rightarrow> int \<Rightarrow> int \<Rightarrow> int \<Rightarrow> int \<Rightarrow> error + string" where
  "splitBody str n str_length part_size i =
     (if str_length smod n \<noteq> 0 then
        (if i + part_size \<ge> str_length then substr str i (str_length - 1)
         else substr str i (i + part_size))
      else substr str i (i + part_size))"

fun splitLoop ::
  "nat \<Rightarrow> string \<Rightarrow> int \<Rightarrow> int \<Rightarrow> int \<Rightarrow> int \<Rightarrow> string list \<Rightarrow> (error + string list) option"
where
  "splitLoop 0 str n str_length part_size i substrings = None"
| "splitLoop (Suc fuel) str n str_length part_size i substrings =
     (if i < str_length then
        (if in_int (i + part_size) then
           (case splitBody str n str_length part_size i of
              Inl e \<Rightarrow> Some (Inl e)
            | Inr s \<Rightarrow>
                splitLoop fuel str n str_length part_size (i + part_size) (substrings @ [s]))
         else Some (Inl IntOverflow))
      else Some (Inr substrings))"

definition splitString :: "nat \<Rightarrow> string \<Rightarrow> int \<Rightarrow> (error + string list) option" where
  "splitString fuel str n =
     (let str_length = to_int (length str)
      in if n = 0 then Some (Inl DivByZero)
         else if str_length = - (2 ^ 31) \<and> n = - 1 then Some (Inl IntOverflow)
         else
           (let part_size = str_length sdiv n
            in splitLoop fuel str n str_length part_size 0 []))"

subsection \<open>The pipeline of \<^verbatim>\<open>main\<close>\<close>

text \<open>
  \<^verbatim>\<open>main\<close> keeps two vectors: the futures of the workers and the chunks of the last
  call of \<^verbatim>\<open>splitString\<close>. A future is modelled by the value its worker returns,
  \<^verbatim>\<open>cipher->applyCipher(substrs[i], settings.cipherMode)\<close>, taken when the worker
  runs. The lambda captures \<^verbatim>\<open>i\<close> and \<^verbatim>\<open>substrs\<close> by reference, so the worker
  launched in round \<open>k\<close> reads \<^verbatim>\<open>substrs[i]\<close> with the value \<^verbatim>\<open>i\<close> has when the
  thread gets there: \<open>k\<close> when it runs at once, up to \<^verbatim>\<open>nThreads\<close> when it runs after
  the loop. How many increments of \<^verbatim>\<open>i\<close> the worker of round \<open>k\<close> comes after is
  given by a schedule \<open>late k\<close>. Every round stores the same chunks, so the vector the
  worker indexes has the contents of the one stored in its round; the read is
  unchecked, and beyond the size it is the error \<open>BadIndex\<close>. The futures are written
  and waited for, and never read.
\<close>

record pipeline_state =
  futures :: "string list"
  substrs :: "string list"

datatype future_status = ready | timeout | deferred

text \<open>
  The first loop, \<^verbatim>\<open>for (int i{0}; i < nThreads; ++i)\<close>: every round splits the
  whole text again, stores the chunks and launches the worker of chunk \<open>i\<close>.
\<close>

text \<open>
  The index the worker of round \<open>k\<close> reads: \<^verbatim>\<open>i\<close> was \<open>k\<close> at the launch, has been
  incremented \<open>late k\<close> times since, and stops at \<^verbatim>\<open>nThreads\<close>.
\<close>

definition racing_index :: "int \<Rightarrow> (nat \<Rightarrow> nat) \<Rightarrow> nat \<Rightarrow> nat" where
  "racing_index nThreads late k = min (k + late k) (nat nThreads)"

definition launchBody ::
  "nat \<Rightarrow> (nat \<Rightarrow> nat) \<Rightarrow> applyCipher_fn \<Rightarrow> CipherMode \<Rightarrow> string \<Rightarrow> int \<Rightarrow> pipeline_state
     \<Rightarrow> nat \<Rightarrow> (error + pipeline_state) option"
where
  "launchBody fuel late applyCipher cipherMode inputText nThreads st i =
     (case splitString fuel inputText nThreads of
        None \<Rightarrow> None
      | Some (Inl e) \<Rightarrow> Some (Inl e)
      | Some (Inr ss) \<Rightarrow>
          (if racing_index nThreads late i < length ss
           then Some (Inr \<lparr>futures =
                             futures st @ [applyCipher (ss ! racing_index nThreads late i) cipherMode],
                           substrs = ss\<rparr>)
           else Some (Inl BadIndex)))"

fun launchLoop ::
  "nat \<Rightarrow> (nat \<Rightarrow> nat) \<Rightarrow> applyCipher_fn \<Rightarrow> CipherMode \<Rightarrow> string \<Rightarrow> int \<Rightarrow> nat list
     \<Rightarrow> pipeline_state \<Rightarrow> (error + pipeline_state) option"
where
  "launchLoop fuel late applyCipher cipherMode inputText nThreads [] st = Some (Inr st)"
| "launchLoop fuel late applyCipher cipherMode inputText nThreads (i # is) st =
     (case launchBody fuel late applyCipher cipherMode inputText nThreads st i of
        None \<Rightarrow> None
      | Some (Inl e) \<Rightarrow> Some (Inl e)
      | Some (Inr st') \<Rightarrow> launchLoop fuel late applyCipher cipherMode inputText nThreads is st')"

text \<open>
  The polling loop. What \<^verbatim>\<open>futures[i].wait_for(std::chrono::seconds(1))\<close> returns
  depends on timing; it is given by a schedule \<open>wait_for round i\<close>. One round of the
  \<^verbatim>\<open>do\<close> body overwrites \<^verbatim>\<open>status\<close> for each future in turn and prints
  \<^verbatim>\<open>processing\<close> on a timeout; the \<^verbatim>\<open>while\<close> condition reads the status left by
  the last future.
\<close>

fun pollRound ::
  "(nat \<Rightarrow> future_status) \<Rightarrow> nat list \<Rightarrow> future_status \<times> string list
     \<Rightarrow> future_status \<times> string list"
where
  "pollRound wait [] acc = acc"
| "pollRound wait (i # is) (status, out) =
     pollRound wait is (wait i, if wait i = timeout then out @ [''processing''] else out)"

fun pollLoop ::
  "nat \<Rightarrow> (nat \<Rightarrow> nat \<Rightarrow> future_status) \<Rightarrow> nat list \<Rightarrow> nat \<Rightarrow> future_status \<times> string list
     \<Rightarrow> (future_status \<times> string list) option"
where
  "pollLoop 0 wait_for idxs round acc = None"
| "pollLoop (Suc fuel) wait_for idxs round acc =
     (let acc' = pollRound (wait_for round) idxs acc
      in if fst acc' \<noteq> ready then pollLoop fuel wait_for idxs (Suc round) acc'
         else Some acc')"

text \<open>The last loop: \<^verbatim>\<open>outputText += substrs[i]\<close> for each index.\<close>

fun combineLoop :: "string list \<Rightarrow> nat list \<Rightarrow> string \<Rightarrow> error + string" where
  "combineLoop ss [] outputText = Inr outputText"
| "combineLoop ss (i # is) outputText =
     (if i < length ss then combineLoop ss is (outputText @ ss ! i) else Inl BadIndex)"

text \<open>
  The pipeline returns the progress lines printed while polling and the text handed to
  the output writer.
\<close>

definition pipeline ::
  "nat \<Rightarrow> (nat \<Rightarrow> nat) \<Rightarrow> (nat \<Rightarrow> nat \<Rightarrow> future_status) \<Rightarrow> applyCipher_fn \<Rightarrow> CipherMode
     \<Rightarrow> string \<Rightarrow> int \<Rightarrow> (error + string list \<times> string) option"
where
  "pipeline fuel late wait_for applyCipher cipherMode inputText nThreads =
     (let idxs = [0..<nat nThreads]
      in case launchLoop fuel late applyCipher cipherMode inputText nThreads idxs
                \<lparr>futures = [], substrs = []\<rparr> of
           None \<Rightarrow> None
         | Some (Inl e) \<Rightarrow> Some (Inl e)
         | Some (Inr st) \<Rightarrow>
             (case pollLoop fuel wait_for idxs 0 (ready, []) of
                None \<Rightarrow> None
              | Some (status, out) \<Rightarrow>
                  (case combineLoop (substrs st) idxs [] of
                     Inl e \<Rightarrow> Some (Inl e)
                   | Inr outputText \<Rightarrow> Some (Inr (out, outputText)))))"

definition main_pipeline ::
  "nat \<Rightarrow> (nat \<Rightarrow> nat) \<Rightarrow> (nat \<Rightarrow> nat \<Rightarrow> future_status) \<Rightarrow> applyCipher_fn \<Rightarrow> CipherMode
     \<Rightarrow> string \<Rightarrow> (error + string list \<times> string) option"
where
  "main_pipeline fuel late wait_for applyCipher cipherMode inputText =
     pipeline fuel late wait_for applyCipher cipherMode inputText 4"

section \<open>The ciphers behind \<^verbatim>\<open>applyCipher\<close>\<close>

text \<open>
  \<^verbatim>\<open>Cipher::applyCipher\<close> is pure virtual in Cipher.hpp; the classes that implement
  it and \<^verbatim>\<open>cipherFactory\<close> are not among the sources at hand. They are modelled
  from sections 3, 4.1 to 4.5 and the glossary of the specification. Letters are the
  upper-case letters \<open>A\<close> to \<open>Z\<close>; any other character passes through unchanged.
  \<^verbatim>\<open>InvalidKey\<close> is the exception class of Cipher.hpp, with its message.
\<close>

datatype InvalidKey = InvalidKey string

text \<open>
  Modelled from the spec: the enumeration \<^verbatim>\<open>CipherType\<close>, whose header is missing
  (section 3, CipherKind); main and the tests name its values.
\<close>

datatype CipherType = Caesar | Playfair | Vigenere

text \<open>
  Modelled from the spec: the validated key material owned by a cipher instance,
  which is missing from the sources (section 3, Key): the shift of Caesar reduced
  modulo 26, the key square of Playfair, the keyword of Vigenere.
\<close>

datatype cipher = CaesarCipher nat | PlayfairCipher string | VigenereCipher string

text \<open>
  Modelled from the spec: the working alphabet, which no source file at hand declares
  (section 3, Text: upper-case \<open>A\<close> to \<open>Z\<close>).
\<close>

definition alphabet :: string where
  "alphabet = ''ABCDEFGHIJKLMNOPQRSTUVWXYZ''"

text \<open>
  Modelled from the spec: the position of a letter in a letter sequence (the alphabet
  or a key square), for the missing cipher classes; the length of the sequence when
  the letter does not occur.
\<close>

primrec index_of :: "char \<Rightarrow> string \<Rightarrow> nat" where
  "index_of c [] = 0"
| "index_of c (x # xs) = (if x = c then 0 else Suc (index_of c xs))"

text \<open>
  Modelled from the spec: the letter shift of the missing Caesar and Vigenere classes
  (sections 4.2 and 4.3): Encrypt moves a letter forward by \<open>k\<close> positions with
  wraparound within the alphabet, Decrypt moves it backward by \<open>k\<close>.
\<close>

definition shift_letter :: "CipherMode \<Rightarrow> nat \<Rightarrow> char \<Rightarrow> char" where
  "shift_letter mode k c =
     (if c \<in> set alphabet then
        (case mode of
           Encrypt \<Rightarrow> alphabet ! ((index_of c alphabet + k) mod 26)
         | Decrypt \<Rightarrow> alphabet ! nat ((int (index_of c alphabet) - int k) mod 26))
      else c)"

text \<open>
  Modelled from the spec: the missing Caesar transformation (section 4.2), every
  letter shifted by the key.
\<close>

definition caesar_apply :: "nat \<Rightarrow> string \<Rightarrow> CipherMode \<Rightarrow> string" where
  "caesar_apply k inputText mode = map (shift_letter mode k) inputText"

text \<open>
  Modelled from the spec: the missing Vigenere transformation (section 4.3). The
  letter with index \<open>j\<close> among the letters of the input is shifted by the keyword letter
  at position \<open>j mod length key\<close>; a character that passes through does not advance \<open>j\<close>.
\<close>

fun vigenere_from :: "string \<Rightarrow> CipherMode \<Rightarrow> nat \<Rightarrow> string \<Rightarrow> string" where
  "vigenere_from key mode j [] = []"
| "vigenere_from key mode j (c # cs) =
     (if c \<in> set alphabet
      then shift_letter mode (index_of (key ! (j mod length key)) alphabet) c
             # vigenere_from key mode (Suc j) cs
      else c # vigenere_from key mode j cs)"

text \<open>
  Modelled from the spec: \<^verbatim>\<open>applyCipher\<close> of the missing Vigenere class (section
  4.3): the alignment starts at the first letter of the input.
\<close>

definition vigenere_apply :: "string \<Rightarrow> string \<Rightarrow> CipherMode \<Rightarrow> string" where
  "vigenere_apply key inputText mode = vigenere_from key mode 0 inputText"

text \<open>
  Modelled from the spec: the 25 usable letters of the missing Playfair class (section
  4.4); the letter without a cell of its own is taken to be \<open>J\<close>.
\<close>

definition playfair_letters :: string where
  "playfair_letters = ''ABCDEFGHIKLMNOPQRSTUVWXYZ''"

text \<open>
  Modelled from the spec: the merge of the missing Playfair class (section 4.4): \<open>J\<close>
  is read as \<open>I\<close>.
\<close>

definition merge_letter :: "char \<Rightarrow> char" where
  "merge_letter c = (if c = CHR ''J'' then CHR ''I'' else c)"

text \<open>
  Modelled from the spec: the key square of the missing Playfair class (section 4.4),
  row by row: the keyword with each letter kept at its first occurrence, then the
  remaining letters in alphabet order.
\<close>

definition key_square :: "string \<Rightarrow> string" where
  "key_square keyword =
     (let seed = rev (remdups (rev (map merge_letter keyword)))
      in seed @ filter (\<lambda>c. c \<notin> set seed) playfair_letters)"

text \<open>
  Modelled from the spec: the filler of the missing Playfair class that breaks up a
  pair of identical letters (section 4.4 and the glossary). The specification names
  no letter; the model inserts \<open>X\<close>, and \<open>Q\<close> between two \<open>X\<close>.
\<close>

definition filler_for :: "char \<Rightarrow> char" where
  "filler_for c = (if c = CHR ''X'' then CHR ''Q'' else CHR ''X'')"

text \<open>
  Modelled from the spec: the filler of the missing Playfair class that pads a
  trailing unpaired letter (section 4.4 and the glossary). The specification names no
  letter; the model pads with \<open>Z\<close>, and with \<open>X\<close> after a \<open>Z\<close>.
\<close>

definition padding_for :: "char \<Rightarrow> char" where
  "padding_for c = (if c = CHR ''Z'' then CHR ''X'' else CHR ''Z'')"

text \<open>
  Modelled from the spec: the preprocessing of the missing Playfair class (section
  4.4): the input is read in pairs, a pair of identical letters is split by a filler
  and the second letter opens the next pair, a trailing unpaired letter is padded.
\<close>

fun insert_fillers :: "string \<Rightarrow> string" where
  "insert_fillers [] = []"
| "insert_fillers [a] = [a, padding_for a]"
| "insert_fillers (a # b # cs) =
     (if a = b then a # filler_for a # insert_fillers (b # cs)
      else a # b # insert_fillers cs)"

text \<open>
  Modelled from the spec: the digraph rule of the missing Playfair class (section
  4.4). A letter at position \<open>p\<close> of the key square stands in row \<open>p div 5\<close> and column
  \<open>p mod 5\<close>; moving right or down by one is \<open>+ 1\<close>, moving left or up is \<open>+ 4\<close>, both
  modulo 5. A pair with a character outside the square passes through.
\<close>

definition playfair_digraph :: "string \<Rightarrow> CipherMode \<Rightarrow> char \<Rightarrow> char \<Rightarrow> char \<times> char" where
  "playfair_digraph square mode a b =
     (if a \<in> set square \<and> b \<in> set square then
        (let ra = index_of a square div 5; ca = index_of a square mod 5;
             rb = index_of b square div 5; cb = index_of b square mod 5;
             step = (case mode of Encrypt \<Rightarrow> 1 | Decrypt \<Rightarrow> 4)
         in if ra = rb then
              (square ! (5 * ra + (ca + step) mod 5), square ! (5 * rb + (cb + step) mod 5))
            else if ca = cb then
              (square ! (5 * ((ra + step) mod 5) + ca), square ! (5 * ((rb + step) mod 5) + cb))
            else
              (square ! (5 * ra + cb), square ! (5 * rb + ca)))
      else (a, b))"

text \<open>
  Modelled from the spec: the pass of the missing Playfair class over the digraphs
  (section 4.4): the rule is applied to each pair in turn.
\<close>

fun apply_digraphs :: "(char \<Rightarrow> char \<Rightarrow> char \<times> char) \<Rightarrow> string \<Rightarrow> string" where
  "apply_digraphs f (a # b # cs) = fst (f a b) # snd (f a b) # apply_digraphs f cs"
| "apply_digraphs f cs = cs"

text \<open>
  Modelled from the spec: the missing Playfair transformation (section 4.4): merge,
  preprocess into digraphs, apply the rule to each digraph; the same in both modes
  but for the direction of the shift.
\<close>

definition playfair_apply :: "string \<Rightarrow> string \<Rightarrow> CipherMode \<Rightarrow> string" where
  "playfair_apply square inputText mode =
     apply_digraphs (playfair_digraph square mode) (insert_fillers (map merge_letter inputText))"

text \<open>
  Modelled from the spec: \<^verbatim>\<open>applyCipher\<close> of the three missing cipher classes, as
  one function on the closed enumeration of section 9.
\<close>

fun applyCipher :: "cipher \<Rightarrow> string \<Rightarrow> CipherMode \<Rightarrow> string" where
  "applyCipher (CaesarCipher k) inputText mode = caesar_apply k inputText mode"
| "applyCipher (PlayfairCipher square) inputText mode = playfair_apply square inputText mode"
| "applyCipher (VigenereCipher key) inputText mode = vigenere_apply key inputText mode"

text \<open>
  Modelled from the spec: the value of a decimal digit, for the key parsing of the
  missing Caesar constructor (section 4.2).
\<close>

definition digit_value :: "char \<Rightarrow> nat" where
  "digit_value c = index_of c ''0123456789''"

text \<open>
  Modelled from the spec: the test for a decimal digit, for the key parsing of the
  missing Caesar constructor (section 4.2).
\<close>

definition is_digit :: "char \<Rightarrow> bool" where
  "is_digit c \<longleftrightarrow> c \<in> set ''0123456789''"

text \<open>
  Modelled from the spec: the value of a string of decimal digits, for the key
  parsing of the missing Caesar constructor (section 4.2).
\<close>

definition digits_value :: "string \<Rightarrow> nat" where
  "digits_value ds = foldl (\<lambda>v d. 10 * v + digit_value d) 0 ds"

text \<open>
  Modelled from the spec: the parsing of a Caesar key (section 4.2), for the missing
  Caesar constructor: an optional minus sign and at least one decimal digit, of any
  size.
\<close>

definition parse_int :: "string \<Rightarrow> int option" where
  "parse_int s =
     (case s of
        [] \<Rightarrow> None
      | c # cs \<Rightarrow>
          if c = CHR ''-'' then
            (if cs \<noteq> [] \<and> list_all is_digit cs then Some (- int (digits_value cs)) else None)
          else if list_all is_digit s then Some (int (digits_value s))
          else None)"

text \<open>
  Modelled from the spec: \<^verbatim>\<open>cipherFactory\<close> (section 4.5), which main calls and
  the sources at hand do not define, with the key validation of sections 4.2 to 4.4.
\<close>

fun cipherFactory :: "CipherType \<Rightarrow> string \<Rightarrow> InvalidKey + cipher" where
  "cipherFactory Caesar rawKey =
     (case parse_int rawKey of
        None \<Rightarrow> Inl (InvalidKey ''Caesar key is not an integer'')
      | Some k \<Rightarrow> Inr (CaesarCipher (nat (k mod 26))))"
| "cipherFactory Playfair rawKey =
     (if list_all (\<lambda>c. c \<in> set alphabet) rawKey then Inr (PlayfairCipher (key_square rawKey))
      else Inl (InvalidKey ''Playfair key has a character outside the alphabet''))"
| "cipherFactory Vigenere rawKey =
     (if rawKey \<noteq> [] \<and> list_all (\<lambda>c. c \<in> set alphabet) rawKey then Inr (VigenereCipher rawKey)
      else Inl (InvalidKey ''Vigenere key is empty or has a character outside the alphabet''))"

section \<open>Properties of the splitter and of the pipeline\<close>

lemmas split_defs =
  splitString_def splitBody_def substr_def to_size_t_def to_int_def in_int_def
  signed_divide_int_def signed_modulo_int_def

lemmas pipeline_defs = main_pipeline_def pipeline_def launchBody_def racing_index_def

lemma to_int_exact: "int x < 2 ^ 31 \<Longrightarrow> to_int x = int x"
  by (simp add: to_int_def)

lemma splitLoop_mono:
  "splitLoop fuel str n L p i acc = Some r \<Longrightarrow> splitLoop (fuel + k) str n L p i acc = Some r"
  by (induction fuel arbitrary: i acc) (auto split: sum.splits if_splits)

lemma splitString_mono:
  assumes "splitString fuel str n = Some r" and "fuel \<le> fuel'"
  shows "splitString fuel' str n = Some r"
proof -
  have "fuel' = fuel + (fuel' - fuel)" using assms(2) by simp
  then show ?thesis
    using assms(1) splitLoop_mono [of fuel str n _ _ 0 "[]" r "fuel' - fuel"]
    by (auto simp: splitString_def Let_def split: if_splits)
qed


lemma splitBody_in_range:
  assumes "0 \<le> i" "i \<le> int (length str)"
  shows "\<exists>s. splitBody str n L p i = Inr s"
proof -
  have "i mod 2 ^ 64 \<le> i" using assms(1) by (simp add: zmod_le_nonneg_dividend)
  then have "to_size_t i \<le> length str" using assms by (simp add: to_size_t_def)
  then show ?thesis by (simp add: splitBody_def substr_def)
qed

lemma splitLoop_returns:
  "0 < p \<Longrightarrow> 0 \<le> i \<Longrightarrow> int (length str) + p \<le> 2 ^ 31 \<Longrightarrow>
   nat (int (length str) - i) < fuel \<Longrightarrow>
     \<exists>ss. splitLoop fuel str n (int (length str)) p i acc = Some (Inr ss)"
proof (induction fuel arbitrary: i acc)
  case 0
  then show ?case by simp
next
  case (Suc fuel)
  show ?case
  proof (cases "i < int (length str)")
    case False
    then show ?thesis by simp
  next
    case True
    have "i \<le> int (length str)" using True by simp
    then obtain s where s: "splitBody str n (int (length str)) p i = Inr s"
      using splitBody_in_range [OF Suc.prems(2)] by blast
    have r: "in_int (i + p)" using Suc.prems True by (simp add: in_int_def)
    have "nat (int (length str) - (i + p)) < fuel"
      using Suc.prems True by linarith
    moreover have "0 \<le> i + p" using Suc.prems by simp
    ultimately obtain ss where
      "splitLoop fuel str n (int (length str)) p (i + p) (acc @ [s]) = Some (Inr ss)"
      using Suc.IH [OF Suc.prems(1) _ Suc.prems(3)] by blast
    with True s r show ?thesis by simp
  qed
qed

lemma splitLoop_stuck:
  "0 < L \<Longrightarrow> splitLoop fuel str n L 0 0 acc = None"
proof (induction fuel arbitrary: acc)
  case 0
  then show ?case by simp
next
  case (Suc fuel)
  obtain s where "splitBody str n L 0 0 = Inr s"
    using splitBody_in_range [of 0 str n L 0] by auto
  with Suc show ?case by (simp add: in_int_def)
qed

lemma sdiv_pos: "0 \<le> a \<Longrightarrow> 0 < n \<Longrightarrow> a sdiv n = a div (n::int)"
  by (simp add: signed_divide_int_def sgn_if)

text \<open>
  Claim C10, amended. For a worker count \<open>n \<ge> 1\<close>, \<^verbatim>\<open>splitString\<close> returns when the text
  is empty (with the empty vector) or has at least \<open>n\<close> characters, provided the length
  plus the chunk size stays within \<^verbatim>\<open>int\<close> (at most \<open>2^31\<close>, as for every text shorter
  than \<open>2^30\<close> characters): every fuel above the length of the text gives the same
  vector. For a text that is not empty and shorter than \<open>n\<close> the chunk size is 0, the
  index never advances and no fuel suffices.
\<close>

theorem splitString_termination:
  assumes "1 \<le> n"
  shows "((str = [] \<or> n \<le> int (length str))
            \<and> int (length str) + int (length str) div n \<le> 2 ^ 31 \<longrightarrow>
            (\<exists>ss. \<forall>fuel > length str. splitString fuel str n = Some (Inr ss))
            \<and> (str = [] \<longrightarrow> splitString 1 str n = Some (Inr [])))
       \<and> (str \<noteq> [] \<and> int (length str) < n \<and> n < 2 ^ 31 \<longrightarrow>
            (\<forall>fuel. splitString fuel str n = None))"
proof (intro conjI impI)
  assume a: "(str = [] \<or> n \<le> int (length str))
     \<and> int (length str) + int (length str) div n \<le> 2 ^ 31"
  let ?L = "int (length str)"
  let ?p = "?L sdiv n"
  have pd: "?p = ?L div n" using assms by (simp add: sdiv_pos)
  from a have "str = [] \<or> 0 < ?p"
    using assms by (auto simp: pd pos_imp_zdiv_pos_iff)
  then show "\<exists>ss. \<forall>fuel > length str. splitString fuel str n = Some (Inr ss)"
  proof
    assume "str = []"
    then have "\<forall>fuel > length str. splitString fuel str n = Some (Inr [])"
      using assms by (auto simp: splitString_def to_int_def gr0_conv_Suc)
    then show ?thesis by blast
  next
    assume p: "0 < ?p"
    then have "?L < 2 ^ 31" using a pd by linarith
    then have L: "to_int (length str) = ?L" by (rule to_int_exact)
    have b: "?L + ?p \<le> 2 ^ 31" using a pd by simp
    obtain ss where ss: "splitLoop (Suc (length str)) str n ?L ?p 0 [] = Some (Inr ss)"
      using splitLoop_returns [OF p _ b, of 0 "Suc (length str)" n "[]"] by auto
    then have s: "splitString (Suc (length str)) str n = Some (Inr ss)"
      using assms by (simp add: splitString_def L)
    have "\<forall>fuel > length str. splitString fuel str n = Some (Inr ss)"
      using splitString_mono [OF s] by (simp add: Suc_le_eq)
    then show ?thesis by blast
  qed
next
  assume "str = []"
  then show "splitString 1 str n = Some (Inr [])"
    using assms by (simp add: splitString_def to_int_def)
next
  assume a: "str \<noteq> [] \<and> int (length str) < n \<and> n < 2 ^ 31"
  then have L: "to_int (length str) = int (length str)" by (intro to_int_exact) simp
  have "int (length str) sdiv n = 0" using a assms by (simp add: sdiv_pos)
  then show "\<forall>fuel. splitString fuel str n = None"
    using a assms by (simp add: splitString_def L splitLoop_stuck)
qed

theorem splitString_termination_witness:
  "(1::int) \<le> 4
   \<and> (\<exists>ss. \<forall>fuel > length ''HELLO''. splitString fuel ''HELLO'' 4 = Some (Inr ss))
   \<and> splitString 1 [] 4 = Some (Inr [])
   \<and> (\<forall>fuel. splitString fuel ''A'' 4 = None)"
  using splitString_termination [of 4 "''HELLO''"] splitString_termination [of 4 "[]"]
    splitString_termination [of 4 "''A''"]
  by simp

text \<open>
  Claim C10 as stated fails on a text of \<open>2^32 + 1\<close> characters with 4 workers: the
  length is at least \<open>n\<close>, but \<^verbatim>\<open>int str_length = str.size()\<close> wraps to 1, the chunk
  size is \<open>1 / 4 = 0\<close> and the loop never advances.
\<close>

theorem splitString_wrapped_length_diverges:
  "(1::int) \<le> 4
   \<and> 4 \<le> int (length (replicate (2 ^ 32 + 1) (CHR ''A'')))
   \<and> (\<forall>fuel. splitString fuel (replicate (2 ^ 32 + 1) (CHR ''A'')) 4 = None)"
proof -
  have "to_int (2 ^ 32 + 1) = 1" by (simp add: to_int_def)
  then have "splitString fuel (replicate (2 ^ 32 + 1) (CHR ''A'')) 4 = None" for fuel
    by (simp add: splitString_def signed_divide_int_def splitLoop_stuck)
  then show ?thesis by simp
qed

text \<open>
  On \<open>3 * 2^29 + 1\<close> characters with 2 workers the third round computes
  \<^verbatim>\<open>i + part_size\<close> beyond \<^verbatim>\<open>int\<close>.
\<close>

lemma splitString_overflow:
  "splitString (Suc (Suc (Suc 0))) (replicate 1610612737 (CHR ''A'')) 2 = Some (Inl IntOverflow)"
  by (simp add: split_defs)








lemma split_ABCDE:
  "splitString 6 ''ABCDE'' 4 = Some (Inr [''A'', ''BC'', ''CDE'', ''DE'', ''E''])"
  by (simp add: split_defs eval_nat_numeral)

lemma split_HELLO: "splitString 6 ''HELLO'' 4 = Some (Inr [''H'', ''EL'', ''LLO'', ''LO'', ''O''])"
  by (simp add: split_defs eval_nat_numeral)

lemma main_ABCDE:
  "main_pipeline 6 late (\<lambda>r i. ready) ac m ''ABCDE'' = Some (Inr ([], ''ABCCDEDE''))"
  by (simp add: pipeline_defs split_ABCDE upt_rec min_less_iff_disj;
      simp add: eval_nat_numeral min_less_iff_disj)

lemma main_HELLO:
  "main_pipeline 6 late (\<lambda>r i. ready) ac m ''HELLO'' = Some (Inr ([], ''HELLLOLO''))"
  by (simp add: pipeline_defs split_HELLO upt_rec min_less_iff_disj;
      simp add: eval_nat_numeral min_less_iff_disj)

text \<open>
  On a text with exactly four chunks, a worker that runs after the loop reads
  \<^verbatim>\<open>substrs[4]\<close> beyond the vector.
\<close>

lemma main_ABCD_late:
  "main_pipeline 5 (\<lambda>k. 4) wait_for ac m ''ABCD'' = Some (Inl BadIndex)"
  by (simp add: pipeline_defs split_defs upt_rec eval_nat_numeral)



text \<open>
  Claim C1 asks that the output be the concatenation of the workers' results. The last
  loop of \<^verbatim>\<open>main\<close> appends \<^verbatim>\<open>substrs[i]\<close>, never \<^verbatim>\<open>futures[i].get()\<close>: for the
  text \<open>ABCDE\<close> the chunks are \<open>A\<close>, \<open>BC\<close>, \<open>CDE\<close>, \<open>DE\<close>, \<open>E\<close> and the output is the
  concatenation \<open>ABCCDEDE\<close> of the first four, for every cipher, mode and worker
  schedule.
\<close>

theorem pipeline_output_untransformed:
  "splitString 6 ''ABCDE'' 4 = Some (Inr [''A'', ''BC'', ''CDE'', ''DE'', ''E''])
   \<and> main_pipeline 6 late (\<lambda>r i. ready) ac m ''ABCDE'' = Some (Inr ([], ''ABCCDEDE''))"
  by (simp only: split_ABCDE main_ABCDE)

text \<open>
  Claim C5 is the scenario Caesar, key 3, Encrypt, \<open>HELLO\<close>, with the expected output
  \<open>KHOOR\<close>. For every cipher, whatever its key, and every worker schedule, the pipeline
  splits \<open>HELLO\<close> into \<open>H\<close>, \<open>EL\<close>, \<open>LLO\<close>, \<open>LO\<close>, \<open>O\<close> and outputs the
  first four chunks as they are: \<open>HELLLOLO\<close>.
\<close>

theorem pipeline_HELLO_output:
  "splitString 6 ''HELLO'' 4 = Some (Inr [''H'', ''EL'', ''LLO'', ''LO'', ''O''])
   \<and> main_pipeline 6 late (\<lambda>r i. ready) ac Encrypt ''HELLO'' = Some (Inr ([], ''HELLLOLO''))"
  by (simp only: split_HELLO main_HELLO)

text \<open>
  Claim C7 asks that after the polling wait every worker's transformed chunk be in the
  output. For every schedule of \<^verbatim>\<open>wait_for\<close> results under which the wait on the four
  futures completes, and whatever the cipher and the worker schedule, the output for
  the text \<open>HELLO\<close> is \<open>HELLLOLO\<close>: polling does not change the text, and no worker's
  result is in it.
\<close>

theorem polling_leaves_untransformed_output:
  assumes "pollLoop fuel wait_for [0..<4] 0 (ready, []) = Some (status, out)"
    and "6 \<le> fuel"
  shows "main_pipeline fuel late wait_for ac m ''HELLO'' = Some (Inr (out, ''HELLLOLO''))"
proof -
  have s: "splitString fuel ''HELLO'' 4 = Some (Inr [''H'', ''EL'', ''LLO'', ''LO'', ''O''])"
    using split_HELLO assms(2) by (rule splitString_mono)
  show ?thesis using assms(1) by (simp add: pipeline_defs s upt_rec min_less_iff_disj)
qed

theorem polling_leaves_untransformed_output_witness:
  "pollLoop 6 (\<lambda>r i. if r = 0 then timeout else ready) [0..<4] 0 (ready, [])
     = Some (ready, [''processing'', ''processing'', ''processing'', ''processing''])
   \<and> (6::nat) \<le> 6
   \<and> main_pipeline 6 (\<lambda>k. 4) (\<lambda>r i. if r = 0 then timeout else ready) (\<lambda>s m. rev s) Encrypt
        ''HELLO''
     = Some (Inr ([''processing'', ''processing'', ''processing'', ''processing''], ''HELLLOLO''))"
proof -
  have p: "pollLoop 6 (\<lambda>r i. if r = 0 then timeout else ready) [0..<4] 0 (ready, [])
     = Some (ready, [''processing'', ''processing'', ''processing'', ''processing''])"
    by (simp add: upt_rec eval_nat_numeral)
  have f: "(6::nat) \<le> 6" by simp
  show ?thesis
    using p f polling_leaves_untransformed_output [OF p f, of "\<lambda>k. 4" "\<lambda>s m. rev s" Encrypt]
    by simp
qed

text \<open>
  Claim C8 asks that partitioning be total for every worker count \<open>N \<ge> 1\<close>. The worker
  count of \<^verbatim>\<open>main\<close> is the constant 4, so 0 never reaches the division; but on the
  one-character text \<open>A\<close> the chunk size is \<open>1 / 4 = 0\<close> and neither \<^verbatim>\<open>splitString\<close>
  nor the pipeline returns, whatever the fuel.
\<close>

theorem splitString_short_text_diverges:
  "splitString fuel ''A'' 4 = None \<and> main_pipeline fuel late wait_for ac m ''A'' = None"
proof -
  have "to_int (length ''A'') sdiv 4 = 0" by (simp add: to_int_def signed_divide_int_def)
  then have s: "splitString fuel ''A'' 4 = None"
    using splitLoop_stuck [of "to_int (length ''A'')" fuel "''A''" 4 "[]"]
    by (simp add: splitString_def to_int_def)
  then show ?thesis by (simp add: pipeline_defs upt_rec)
qed

text \<open>
  Claim C2 asks that the chunks, concatenated in index order, give the text back. The
  second argument of \<^verbatim>\<open>substr\<close> is a count, and the code passes the end position
  \<^verbatim>\<open>i+part_size\<close>: the chunks overlap. Splitting \<open>ABC\<close> for 3 workers gives \<open>A\<close>,
  \<open>BC\<close>, \<open>C\<close>, whose concatenation is \<open>ABCC\<close>.
\<close>

theorem splitString_ABC_duplicates:
  "splitString 4 ''ABC'' 3 = Some (Inr [''A'', ''BC'', ''C''])
   \<and> concat [''A'', ''BC'', ''C''] = ''ABCC''"
  by (simp add: split_defs eval_nat_numeral)

text \<open>
  Claim C3 asks for exactly \<open>N\<close> chunks. When the length is not a multiple of \<open>N\<close> the
  loop runs once more for the remainder: splitting \<open>ABCDE\<close> for 2 workers gives 3
  chunks.
\<close>

theorem splitString_ABCDE_three_chunks:
  "splitString 4 ''ABCDE'' 2 = Some (Inr [''AB'', ''CDE'', ''E''])
   \<and> length [''AB'', ''CDE'', ''E''] = 3"
  by (simp add: split_defs eval_nat_numeral)

text \<open>
  Claim C4 is the scenario of 10 characters and 4 workers, with chunk sizes 2, 2, 2, 4
  and a concatenation equal to the text. The code returns five chunks of sizes 2, 4, 6,
  4, 2, whose concatenation has 18 characters.
\<close>

theorem splitString_ten_by_four:
  "splitString 6 ''ABCDEFGHIJ'' 4 = Some (Inr [''AB'', ''CDEF'', ''EFGHIJ'', ''GHIJ'', ''IJ''])
   \<and> map length [''AB'', ''CDEF'', ''EFGHIJ'', ''GHIJ'', ''IJ''] = [2, 4, 6, 4, 2]
   \<and> concat [''AB'', ''CDEF'', ''EFGHIJ'', ''GHIJ'', ''IJ''] = ''ABCDEFEFGHIJGHIJIJ''"
  by (simp add: split_defs eval_nat_numeral)

section \<open>Round trip of the modelled ciphers\<close>

lemma index_of_less: "c \<in> set xs \<Longrightarrow> index_of c xs < length xs"
  by (induction xs) auto

lemma nth_index_of: "c \<in> set xs \<Longrightarrow> xs ! index_of c xs = c"
  by (induction xs) auto

lemma index_of_nth: "distinct xs \<Longrightarrow> i < length xs \<Longrightarrow> index_of (xs ! i) xs = i"
proof (induction xs arbitrary: i)
  case Nil
  then show ?case by simp
next
  case (Cons x xs)
  then show ?case by (cases i) auto
qed

lemma alphabet_facts: "distinct alphabet" "length alphabet = 26"
  by (simp_all add: alphabet_def)

lemma shift_letter_alphabet:
  "shift_letter mode k c \<in> set alphabet \<longleftrightarrow> c \<in> set alphabet"
proof (cases "c \<in> set alphabet")
  case False
  then show ?thesis by (simp add: shift_letter_def)
next
  case True
  have fwd: "alphabet ! (m mod 26) \<in> set alphabet" for m
    by (rule nth_mem) (simp add: alphabet_facts)
  have "nat (z mod 26) < 26" for z :: int
    by simp
  then have bwd: "alphabet ! nat (z mod 26) \<in> set alphabet" for z :: int
    by (intro nth_mem) (simp add: alphabet_facts)
  from True fwd bwd show ?thesis by (simp add: shift_letter_def split: CipherMode.split)
qed

lemma shift_arith:
  assumes "i < 26"
  shows "nat ((int ((i + k) mod 26) - int k) mod 26) = i"
proof -
  have "(int ((i + k) mod 26) - int k) mod 26 = ((int i + int k) mod 26 - int k) mod 26"
    by (simp add: zmod_int)
  also have "\<dots> = (int i + int k - int k) mod 26"
    by (simp only: mod_diff_left_eq)
  also have "\<dots> = int i" using assms by simp
  finally show ?thesis by simp
qed

lemma shift_letter_inverse:
  "shift_letter Decrypt k (shift_letter Encrypt k c) = c"
proof (cases "c \<in> set alphabet")
  case False
  then show ?thesis by (simp add: shift_letter_def)
next
  case True
  let ?i = "index_of c alphabet"
  let ?e = "alphabet ! ((?i + k) mod 26)"
  have i: "?i < 26" using index_of_less [OF True] by (simp add: alphabet_facts)
  have e: "shift_letter Encrypt k c = ?e" using True by (simp add: shift_letter_def)
  have mem: "?e \<in> set alphabet" by (rule nth_mem) (simp add: alphabet_facts)
  have idx: "index_of ?e alphabet = (?i + k) mod 26"
    by (rule index_of_nth) (simp_all add: alphabet_facts)
  have "shift_letter Decrypt k ?e = alphabet ! nat ((int ((?i + k) mod 26) - int k) mod 26)"
    using mem by (simp add: shift_letter_def idx)
  also have "\<dots> = alphabet ! ?i" by (simp only: shift_arith [OF i])
  also have "\<dots> = c" by (rule nth_index_of [OF True])
  finally show ?thesis by (simp only: e)
qed

lemma caesar_round_trip: "caesar_apply k (caesar_apply k msg Encrypt) Decrypt = msg"
  by (induction msg) (simp_all add: caesar_apply_def shift_letter_inverse)

lemma vigenere_from_round_trip:
  "vigenere_from key Decrypt j (vigenere_from key Encrypt j msg) = msg"
  by (induction msg arbitrary: j) (simp_all add: shift_letter_alphabet shift_letter_inverse)

lemma vigenere_round_trip: "vigenere_apply key (vigenere_apply key msg Encrypt) Decrypt = msg"
  by (simp add: vigenere_apply_def vigenere_from_round_trip)

lemma playfair_letters_facts:
  "distinct playfair_letters" "length playfair_letters = 25"
  by (simp_all add: playfair_letters_def)

lemma merge_letter_playfair: "c \<in> set alphabet \<Longrightarrow> merge_letter c \<in> set playfair_letters"
  by (auto simp: alphabet_def playfair_letters_def merge_letter_def)

lemma merge_letter_id: "c \<in> set playfair_letters \<Longrightarrow> merge_letter c = c"
  by (auto simp: playfair_letters_def merge_letter_def)

lemma map_merge_letter_id: "set w \<subseteq> set playfair_letters \<Longrightarrow> map merge_letter w = w"
  by (induction w) (simp_all add: merge_letter_id)

lemma key_square_set:
  assumes "list_all (\<lambda>c. c \<in> set alphabet) keyword"
  shows "set (key_square keyword) = set playfair_letters"
proof -
  have "merge_letter ` set keyword \<subseteq> set playfair_letters"
    using assms by (auto simp: list_all_iff merge_letter_playfair)
  then show ?thesis by (auto simp: key_square_def Let_def)
qed

lemma key_square_distinct: "distinct (key_square keyword)"
  by (auto simp: key_square_def Let_def playfair_letters_facts)

lemma key_square_length:
  assumes "list_all (\<lambda>c. c \<in> set alphabet) keyword"
  shows "length (key_square keyword) = 25"
proof -
  have "length (key_square keyword) = card (set (key_square keyword))"
    by (simp add: distinct_card key_square_distinct)
  also have "\<dots> = card (set playfair_letters)" by (simp only: key_square_set [OF assms])
  also have "\<dots> = length playfair_letters"
    by (rule distinct_card) (rule playfair_letters_facts)
  finally show ?thesis by (simp add: playfair_letters_facts)
qed

lemma filler_facts:
  "filler_for a \<noteq> a" "padding_for a \<noteq> a" "a \<noteq> filler_for a" "a \<noteq> padding_for a"
  "filler_for a \<in> set playfair_letters" "padding_for a \<in> set playfair_letters"
  by (auto simp: filler_for_def padding_for_def playfair_letters_def)

lemma insert_fillers_letters:
  "set xs \<subseteq> set playfair_letters \<Longrightarrow> set (insert_fillers xs) \<subseteq> set playfair_letters"
  by (induction xs rule: insert_fillers.induct) (auto simp: filler_facts)

lemma insert_fillers_idem: "insert_fillers (insert_fillers xs) = insert_fillers xs"
  by (induction xs rule: insert_fillers.induct) (auto simp: filler_facts)

lemma step_back: "c < 5 \<Longrightarrow> ((c + 1) mod 5 + 4) mod 5 = (c::nat)"
  by (simp add: mod_add_left_eq)

lemma step_back_Suc: "c < 5 \<Longrightarrow> (Suc c mod 5 + 4) mod 5 = c"
  using step_back [of c] by simp

lemma step_inj: "c < 5 \<Longrightarrow> d < 5 \<Longrightarrow> (c + 1) mod 5 = (d + 1) mod 5 \<Longrightarrow> c = (d::nat)"
  by (metis step_back)

lemma playfair_digraph_cells:
  assumes sq: "distinct sq" "length sq = 25"
    and b: "ra < 5" "ca < 5" "rb < 5" "cb < 5"
  shows "playfair_digraph sq mode (sq ! (5 * ra + ca)) (sq ! (5 * rb + cb)) =
     (let step = (case mode of Encrypt \<Rightarrow> 1 | Decrypt \<Rightarrow> 4)
      in if ra = rb then
           (sq ! (5 * ra + (ca + step) mod 5), sq ! (5 * rb + (cb + step) mod 5))
         else if ca = cb then
           (sq ! (5 * ((ra + step) mod 5) + ca), sq ! (5 * ((rb + step) mod 5) + cb))
         else (sq ! (5 * ra + cb), sq ! (5 * rb + ca)))"
proof -
  have la: "5 * ra + ca < length sq" and lb: "5 * rb + cb < length sq"
    using b by (simp_all add: sq)
  have ia: "index_of (sq ! (5 * ra + ca)) sq = 5 * ra + ca"
    and ib: "index_of (sq ! (5 * rb + cb)) sq = 5 * rb + cb"
    using la lb by (simp_all add: index_of_nth sq)
  have "sq ! (5 * ra + ca) \<in> set sq" "sq ! (5 * rb + cb) \<in> set sq"
    using la lb by simp_all
  then show ?thesis
    using b by (simp add: playfair_digraph_def ia ib Let_def)
qed

lemma cell_inj:
  "c < 5 \<Longrightarrow> c' < 5 \<Longrightarrow> 5 * r + c = 5 * r' + c' \<Longrightarrow> r = r' \<and> c = (c'::nat)"
  by arith

lemma cell_neq:
  assumes "distinct sq" "length sq = 25" "r < 5" "c < 5" "r' < 5" "c' < 5"
    and "r \<noteq> r' \<or> c \<noteq> c'"
  shows "sq ! (5 * r + c) \<noteq> sq ! (5 * r' + c')"
proof -
  have "5 * r + c < length sq" "5 * r' + c' < length sq" using assms by simp_all
  then have "sq ! (5 * r + c) = sq ! (5 * r' + c') \<longleftrightarrow> 5 * r + c = 5 * r' + c'"
    using assms(1) by (simp add: nth_eq_iff_index_eq)
  then show ?thesis using assms cell_inj [of c c' r r'] by blast
qed

lemma cell_mem:
  "length sq = 25 \<Longrightarrow> r < 5 \<Longrightarrow> c < 5 \<Longrightarrow> sq ! (5 * r + c) \<in> set sq"
  by simp

lemma playfair_digraph_inverse:
  assumes sq: "distinct sq" "length sq = 25"
    and ab: "a \<in> set sq" "b \<in> set sq" "a \<noteq> b"
  shows "fst (playfair_digraph sq Encrypt a b) \<in> set sq
       \<and> snd (playfair_digraph sq Encrypt a b) \<in> set sq
       \<and> fst (playfair_digraph sq Encrypt a b) \<noteq> snd (playfair_digraph sq Encrypt a b)
       \<and> playfair_digraph sq Decrypt (fst (playfair_digraph sq Encrypt a b))
            (snd (playfair_digraph sq Encrypt a b)) = (a, b)"
proof -
  define ra ca rb cb where
    "ra = index_of a sq div 5" and "ca = index_of a sq mod 5" and
    "rb = index_of b sq div 5" and "cb = index_of b sq mod 5"
  have "index_of a sq < 25" "index_of b sq < 25"
    using index_of_less ab sq by fastforce+
  then have bnd: "ra < 5" "ca < 5" "rb < 5" "cb < 5"
    and ia: "5 * ra + ca = index_of a sq" and ib: "5 * rb + cb = index_of b sq"
    by (simp_all add: ra_def ca_def rb_def cb_def)
  have a: "a = sq ! (5 * ra + ca)" and b: "b = sq ! (5 * rb + cb)"
    by (simp_all add: ia ib nth_index_of ab)
  have ne: "ra \<noteq> rb \<or> ca \<noteq> cb" using ab(3) a b by auto
  note cells = playfair_digraph_cells [OF sq]
  note neq = cell_neq [OF sq]
  note mem = cell_mem [OF sq(2)]
  consider (row) "ra = rb" "ca \<noteq> cb" | (col) "ra \<noteq> rb" "ca = cb" | (rect) "ra \<noteq> rb" "ca \<noteq> cb"
    using ne by blast
  then show ?thesis
  proof cases
    case row
    have e: "playfair_digraph sq Encrypt a b =
        (sq ! (5 * ra + (ca + 1) mod 5), sq ! (5 * rb + (cb + 1) mod 5))"
      unfolding a b using row by (simp add: cells bnd)
    have d: "playfair_digraph sq Decrypt (sq ! (5 * ra + (ca + 1) mod 5)) (sq ! (5 * rb + (cb + 1) mod 5))
        = (a, b)"
      unfolding a b using row by (simp add: cells bnd step_back_Suc)
    have "(ca + 1) mod 5 \<noteq> (cb + 1) mod 5" using row bnd step_inj by blast
    then have "sq ! (5 * ra + (ca + 1) mod 5) \<noteq> sq ! (5 * rb + (cb + 1) mod 5)"
      by (intro neq) (simp_all add: bnd)
    then show ?thesis unfolding e using d by (simp add: mem bnd)
  next
    case col
    have e: "playfair_digraph sq Encrypt a b =
        (sq ! (5 * ((ra + 1) mod 5) + ca), sq ! (5 * ((rb + 1) mod 5) + cb))"
      unfolding a b using col by (simp add: cells bnd)
    have r: "(ra + 1) mod 5 \<noteq> (rb + 1) mod 5" using col bnd step_inj by blast
    have d: "playfair_digraph sq Decrypt (sq ! (5 * ((ra + 1) mod 5) + ca)) (sq ! (5 * ((rb + 1) mod 5) + cb))
        = (a, b)"
      unfolding a b using col r by (simp add: cells bnd step_back_Suc)
    have "sq ! (5 * ((ra + 1) mod 5) + ca) \<noteq> sq ! (5 * ((rb + 1) mod 5) + cb)"
      using r by (intro neq) (simp_all add: bnd)
    then show ?thesis unfolding e using d by (simp add: mem bnd)
  next
    case rect
    have e: "playfair_digraph sq Encrypt a b = (sq ! (5 * ra + cb), sq ! (5 * rb + ca))"
      unfolding a b using rect by (simp add: cells bnd)
    have d: "playfair_digraph sq Decrypt (sq ! (5 * ra + cb)) (sq ! (5 * rb + ca)) = (a, b)"
      unfolding a b using rect by (simp add: cells bnd)
    have "sq ! (5 * ra + cb) \<noteq> sq ! (5 * rb + ca)"
      using rect by (intro neq) (simp_all add: bnd)
    then show ?thesis unfolding e using d by (simp add: mem bnd)
  qed
qed

lemma apply_digraphs_round_trip:
  assumes sq: "distinct sq" "length sq = 25"
  shows "insert_fillers w = w \<Longrightarrow> set w \<subseteq> set sq \<Longrightarrow>
     apply_digraphs (playfair_digraph sq Decrypt) (apply_digraphs (playfair_digraph sq Encrypt) w) = w
     \<and> insert_fillers (apply_digraphs (playfair_digraph sq Encrypt) w)
         = apply_digraphs (playfair_digraph sq Encrypt) w
     \<and> set (apply_digraphs (playfair_digraph sq Encrypt) w) \<subseteq> set sq"
proof (induction w rule: insert_fillers.induct)
  case 1
  then show ?case by simp
next
  case (2 a)
  then show ?case by simp
next
  case (3 a b cs)
  have ne: "a \<noteq> b"
  proof
    assume "a = b"
    with "3.prems"(1) have "filler_for a = a" by simp
    then show False by (simp add: filler_facts)
  qed
  with "3.prems" have fixed: "insert_fillers cs = cs" and sub: "set cs \<subseteq> set sq"
    and ab: "a \<in> set sq" "b \<in> set sq"
    by simp_all
  note inv = playfair_digraph_inverse [OF sq ab ne]
  note ih = "3.IH"(2) [OF ne fixed sub]
  show ?case using inv ih by simp
qed

lemma playfair_round_trip:
  assumes sq: "distinct sq" "length sq = 25" "set sq = set playfair_letters"
    and msg: "set msg \<subseteq> set alphabet"
  shows "playfair_apply sq (playfair_apply sq msg Encrypt) Decrypt
          = insert_fillers (map merge_letter msg)"
proof -
  let ?w = "insert_fillers (map merge_letter msg)"
  let ?e = "apply_digraphs (playfair_digraph sq Encrypt) ?w"
  have "set (map merge_letter msg) \<subseteq> set playfair_letters"
    using msg by (auto simp: merge_letter_playfair)
  then have w: "set ?w \<subseteq> set sq" by (simp add: insert_fillers_letters sq(3))
  note rt = apply_digraphs_round_trip [OF sq(1,2) insert_fillers_idem w]
  from rt have "set ?e \<subseteq> set playfair_letters" by (simp add: sq(3))
  then have m: "map merge_letter ?e = ?e" by (rule map_merge_letter_id)
  from rt have f: "insert_fillers ?e = ?e" by simp
  from rt have d: "apply_digraphs (playfair_digraph sq Decrypt) ?e = ?w" by simp
  show ?thesis by (simp add: playfair_apply_def m f d)
qed

text \<open>The concrete scenarios 1 to 3 of the specification hold of the modelled Caesar cipher.\<close>

lemma caesar_key_3: "cipherFactory Caesar ''3'' = Inr (CaesarCipher 3)"
  by (simp add: parse_int_def is_digit_def digits_value_def digit_value_def)

lemma caesar_scenarios:
  "applyCipher (CaesarCipher 3) ''HELLO'' Encrypt = ''KHOOR''"
  "applyCipher (CaesarCipher 3) ''KHOOR'' Decrypt = ''HELLO''"
  "cipherFactory Caesar ''abc'' = Inl (InvalidKey ''Caesar key is not an integer'')"
  by (simp_all add: caesar_apply_def shift_letter_def alphabet_def
        parse_int_def is_digit_def)

text \<open>
  Claim C6, amended. For every cipher kind and every raw key that \<open>cipherFactory\<close>
  accepts, and every text over the alphabet \<open>A\<close> to \<open>Z\<close>, decrypting the encrypted
  text gives the text back for Caesar and Vigenere; for Playfair it gives the text
  with every \<open>J\<close> read as \<open>I\<close> and the filler letters inserted.
\<close>

theorem cipher_round_trip:
  assumes "cipherFactory kind rawKey = Inr c"
    and "set msg \<subseteq> set alphabet"
  shows "applyCipher c (applyCipher c msg Encrypt) Decrypt =
           (case kind of Playfair \<Rightarrow> insert_fillers (map merge_letter msg) | _ \<Rightarrow> msg)"
proof (cases kind)
  case Caesar
  with assms(1) obtain k where "c = CaesarCipher k"
    by (auto split: option.splits)
  then show ?thesis using Caesar by (simp add: caesar_round_trip)
next
  case Vigenere
  with assms(1) have "c = VigenereCipher rawKey"
    by (auto split: if_splits)
  then show ?thesis using Vigenere by (simp add: vigenere_round_trip)
next
  case Playfair
  with assms(1) have key: "list_all (\<lambda>c. c \<in> set alphabet) rawKey"
    and c: "c = PlayfairCipher (key_square rawKey)"
    by (auto split: if_splits)
  have "playfair_apply (key_square rawKey) (playfair_apply (key_square rawKey) msg Encrypt) Decrypt
          = insert_fillers (map merge_letter msg)"
    by (rule playfair_round_trip [OF key_square_distinct key_square_length [OF key]
          key_square_set [OF key] assms(2)])
  then show ?thesis using Playfair c by simp
qed

lemma playfair_example_key:
  "cipherFactory Playfair ''PLAYFAIREXAMPLE'' = Inr (PlayfairCipher ''PLAYFIREXMBCDGHKNOQSTUVWZ'')"
  by (simp add: key_square_def alphabet_def playfair_letters_def merge_letter_def)

theorem cipher_round_trip_witness:
  "cipherFactory Playfair ''PLAYFAIREXAMPLE'' = Inr (PlayfairCipher ''PLAYFIREXMBCDGHKNOQSTUVWZ'')
   \<and> set ''TREE'' \<subseteq> set alphabet
   \<and> applyCipher (PlayfairCipher ''PLAYFIREXMBCDGHKNOQSTUVWZ'')
        (applyCipher (PlayfairCipher ''PLAYFIREXMBCDGHKNOQSTUVWZ'') ''TREE'' Encrypt) Decrypt
      = ''TREXEZ''"
proof -
  have s: "set ''TREE'' \<subseteq> set alphabet"
    by (simp add: alphabet_def)
  show ?thesis using playfair_example_key s cipher_round_trip [OF playfair_example_key s]
    by (simp add: filler_for_def padding_for_def merge_letter_def)
qed

text \<open>
  Claim C6 as stated fails for Playfair on a text with a \<open>J\<close>: the round trip of
  \<open>JAM\<close> is \<open>IAMZ\<close>, which is not \<open>JAM\<close> with filler letters inserted (\<open>JAMZ\<close>).
\<close>

theorem playfair_round_trip_loses_J:
  "cipherFactory Playfair ''PLAYFAIREXAMPLE'' = Inr (PlayfairCipher ''PLAYFIREXMBCDGHKNOQSTUVWZ'')
   \<and> set ''JAM'' \<subseteq> set alphabet
   \<and> applyCipher (PlayfairCipher ''PLAYFIREXMBCDGHKNOQSTUVWZ'')
        (applyCipher (PlayfairCipher ''PLAYFIREXMBCDGHKNOQSTUVWZ'') ''JAM'' Encrypt) Decrypt
      = ''IAMZ''
   \<and> insert_fillers ''JAM'' = ''JAMZ''"
proof -
  let ?key = "''PLAYFAIREXAMPLE''"
  have key: "list_all (\<lambda>c. c \<in> set alphabet) ?key" by (simp add: alphabet_def)
  have sq: "key_square ?key = ''PLAYFIREXMBCDGHKNOQSTUVWZ''"
    using playfair_example_key key by simp
  have s: "set ''JAM'' \<subseteq> set alphabet" by (simp add: alphabet_def)
  have "playfair_apply (key_square ?key) (playfair_apply (key_square ?key) ''JAM'' Encrypt) Decrypt
          = insert_fillers (map merge_letter ''JAM'')"
    by (rule playfair_round_trip [OF key_square_distinct key_square_length [OF key]
          key_square_set [OF key] s])
  then have "applyCipher (PlayfairCipher ''PLAYFIREXMBCDGHKNOQSTUVWZ'')
        (applyCipher (PlayfairCipher ''PLAYFIREXMBCDGHKNOQSTUVWZ'') ''JAM'' Encrypt) Decrypt
      = ''IAMZ''"
    by (simp add: sq merge_letter_def padding_for_def)
  then show ?thesis using playfair_example_key s by (simp add: padding_for_def)
qed

end
